theory Spec2Isabelle
  imports Main
begin

section \<open>The tic-tac-toe game engine of App.tsx\<close>

text \<open>
  The engine is the part of \<^verbatim>\<open>src/App.tsx\<close> that owns the board, the turn flag and the
  highlighted line: the constants \<^verbatim>\<open>WINNING_LINES\<close> and \<^verbatim>\<open>EMPTY_BOARD\<close>, the helpers
  \<^verbatim>\<open>calculateWinner\<close> and \<^verbatim>\<open>isBoardFull\<close>, and the two handlers \<^verbatim>\<open>handlePress\<close> and
  \<^verbatim>\<open>resetGame\<close> of the component \<^verbatim>\<open>App\<close>. The specification calls them
  \<^verbatim>\<open>evaluateWinner\<close>, \<^verbatim>\<open>isFull\<close>, \<^verbatim>\<open>applyMove\<close> and \<^verbatim>\<open>reset\<close>.
\<close>

subsection \<open>Data\<close>

text \<open>\<^verbatim>\<open>type Player = 'X' | 'O'\<close>\<close>

datatype player = PX | PO

text \<open>
  \<^verbatim>\<open>type Cell = Player | null\<close>. A read of a JavaScript array outside its elements gives
  \<^verbatim>\<open>undefined\<close>, and a write beyond its end leaves holes that read as \<^verbatim>\<open>undefined\<close>;
  so the values the code can meet in a cell are three. No operation of the engine
  tells a hole from a stored \<^verbatim>\<open>undefined\<close>: \<^verbatim>\<open>every\<close> skips a hole and accepts
  \<^verbatim>\<open>undefined !== null\<close>, the spread copies a hole as \<^verbatim>\<open>undefined\<close>.
\<close>

datatype cell = Undefined | Null | Mark player

text \<open>
  \<^verbatim>\<open>type Board = [Cell, ..., Cell]\<close> (nine of them) is a JavaScript array at run time:
  its elements, and the properties stored under keys that are not array indices
  (\<^verbatim>\<open>next[-1] = 'X'\<close> stores such a property and leaves the elements and the length alone).
\<close>

record board =
  cells :: "cell list"
  extra :: "int \<rightharpoonup> player"

text \<open>
  The three \<^verbatim>\<open>useState\<close> values of \<^verbatim>\<open>App\<close>. The specification's \<^verbatim>\<open>nextPlayer\<close>,
  \<^verbatim>\<open>winner\<close>, \<^verbatim>\<open>isDraw\<close> and \<^verbatim>\<open>winningLine\<close> are read off them below.
\<close>

record game =
  board :: board
  isXNext :: bool
  winningCells :: "int list"

subsection \<open>Constants\<close>

definition WINNING_LINES :: "(int \<times> int \<times> int) list" where
  "WINNING_LINES =
     [(0, 1, 2), (3, 4, 5), (6, 7, 8),
      (0, 3, 6), (1, 4, 7), (2, 5, 8),
      (0, 4, 8), (2, 4, 6)]"

definition EMPTY_BOARD :: board where
  "EMPTY_BOARD =
     \<lparr>cells = [Null, Null, Null, Null, Null, Null, Null, Null, Null], extra = Map.empty\<rparr>"

subsection \<open>JavaScript array access\<close>

text \<open>A key is an array index when it is an integer from 0 to \<open>2^32 - 2\<close>.\<close>

definition is_array_index :: "int \<Rightarrow> bool" where
  "is_array_index i \<longleftrightarrow> 0 \<le> i \<and> i < 2 ^ 32 - 1"

text \<open>\<^verbatim>\<open>board[i]\<close>: the element, a stored property, or \<^verbatim>\<open>undefined\<close>.\<close>

definition at_index :: "board \<Rightarrow> int \<Rightarrow> cell" where
  "at_index b i =
     (if 0 \<le> i \<and> i < int (length (cells b)) then cells b ! nat i
      else case extra b i of Some p \<Rightarrow> Mark p | None \<Rightarrow> Undefined)"

text \<open>\<^verbatim>\<open>[...board]\<close>: a new array of the elements; other properties are not copied.\<close>

definition spread :: "board \<Rightarrow> board" where
  "spread b = \<lparr>cells = cells b, extra = Map.empty\<rparr>"

text \<open>
  \<^verbatim>\<open>next[i] = p\<close>: inside the array the element is replaced; at an array index beyond
  the end the array grows to length \<open>i + 1\<close>, the new places before \<open>i\<close> being holes;
  under any other key a property is stored.
\<close>

definition assign :: "board \<Rightarrow> int \<Rightarrow> player \<Rightarrow> board" where
  "assign b i p =
     (if is_array_index i then
        (if nat i < length (cells b) then b\<lparr>cells := (cells b)[nat i := Mark p]\<rparr>
         else b\<lparr>cells := cells b @ replicate (nat i - length (cells b)) Undefined @ [Mark p]\<rparr>)
      else b\<lparr>extra := (extra b)(i \<mapsto> p)\<rparr>)"

text \<open>JavaScript truthiness of a cell: the strings \<^verbatim>\<open>'X'\<close> and \<^verbatim>\<open>'O'\<close> only.\<close>

fun truthy :: "cell \<Rightarrow> bool" where
  "truthy (Mark p) = True"
| "truthy Null = False"
| "truthy Undefined = False"

subsection \<open>Helpers\<close>

text \<open>
  \<^verbatim>\<open>calculateWinner\<close>: the \<^verbatim>\<open>for ... of\<close> loop over the lines, as a recursion over the
  list of lines still to be scanned. It returns \<^verbatim>\<open>board[a]\<close> itself, or \<^verbatim>\<open>null\<close>.
\<close>

fun scan_lines :: "board \<Rightarrow> (int \<times> int \<times> int) list \<Rightarrow> cell" where
  "scan_lines brd [] = Null"
| "scan_lines brd ((a, b, c) # ls) =
     (if truthy (at_index brd a) \<and> at_index brd a = at_index brd b
         \<and> at_index brd a = at_index brd c
      then at_index brd a
      else scan_lines brd ls)"

definition calculateWinner :: "board \<Rightarrow> cell" where
  "calculateWinner brd = scan_lines brd WINNING_LINES"

text \<open>\<^verbatim>\<open>board.every((cell) => cell !== null)\<close>\<close>

definition isBoardFull :: "board \<Rightarrow> bool" where
  "isBoardFull brd = list_all (\<lambda>c. c \<noteq> Null) (cells brd)"

subsection \<open>The component's derived values and handlers\<close>

definition winner :: "game \<Rightarrow> cell" where
  "winner s = calculateWinner (board s)"

definition isDraw :: "game \<Rightarrow> bool" where
  "isDraw s \<longleftrightarrow> \<not> truthy (winner s) \<and> isBoardFull (board s)"

definition gameOver :: "game \<Rightarrow> bool" where
  "gameOver s \<longleftrightarrow> truthy (winner s) \<or> isDraw s"

text \<open>\<^verbatim>\<open>isXNext ? 'X' : 'O'\<close>, the marker the next press places.\<close>

definition nextPlayer :: "game \<Rightarrow> player" where
  "nextPlayer s = (if isXNext s then PX else PO)"

text \<open>
  \<^verbatim>\<open>handlePress\<close>. The three state setters take effect together, so the handler is a
  function from the rendered state to the next one; the early \<^verbatim>\<open>return\<close> leaves the
  state as it is. \<^verbatim>\<open>line ?? []\<close> is the \<open>None\<close> branch of the \<open>find\<close>. The parameter
  \<^verbatim>\<open>index: number\<close> ranges over the integers here; the shell passes 0 to 8 only.
\<close>

definition handlePress :: "game \<Rightarrow> int \<Rightarrow> game" where
  "handlePress s index =
     (if gameOver s \<or> truthy (at_index (board s) index) then s
      else
        let next = assign (spread (board s)) index (if isXNext s then PX else PO);
            newWinner = calculateWinner next
        in \<lparr>board = next,
            isXNext = \<not> isXNext s,
            winningCells =
              (if truthy newWinner then
                 (case find (\<lambda>(a, b, c). at_index next a = newWinner
                                \<and> at_index next b = newWinner
                                \<and> at_index next c = newWinner) WINNING_LINES of
                    Some (a, b, c) \<Rightarrow> [a, b, c]
                  | None \<Rightarrow> [])
               else winningCells s)\<rparr>)"

definition resetGame :: "game \<Rightarrow> game" where
  "resetGame s = \<lparr>board = EMPTY_BOARD, isXNext = True, winningCells = []\<rparr>"

text \<open>The state of the first render: the initial values of the three \<^verbatim>\<open>useState\<close> calls.\<close>

definition initial :: game where
  "initial = \<lparr>board = EMPTY_BOARD, isXNext = True, winningCells = []\<rparr>"

subsection \<open>Reachable states\<close>

text \<open>
  The states the shell can produce: it starts from \<open>initial\<close>, offers the nine cells
  \<open>0..8\<close> as press targets and a reset button.
\<close>

inductive reachable :: "game \<Rightarrow> bool" where
  reach_initial: "reachable initial"
| reach_press: "reachable s \<Longrightarrow> 0 \<le> i \<Longrightarrow> i \<le> 8 \<Longrightarrow> reachable (handlePress s i)"
| reach_reset: "reachable s \<Longrightarrow> reachable (resetGame s)"

text \<open>A run of presses, in order, for writing down concrete reachable states.\<close>

definition presses :: "int list \<Rightarrow> game" where
  "presses ks = foldl handlePress initial ks"

subsection \<open>Lines, well-typed boards and sample boards\<close>

text \<open>
  The specification's words for the win check: a player holds a line when its three cells
  hold that player's marker, and a line wins when one of the two players holds it.
\<close>

definition holds_line :: "board \<Rightarrow> player \<Rightarrow> int \<times> int \<times> int \<Rightarrow> bool" where
  "holds_line brd p l =
     (case l of (a, b, c) \<Rightarrow>
        at_index brd a = Mark p \<and> at_index brd b = Mark p \<and> at_index brd c = Mark p)"

definition line_wins :: "board \<Rightarrow> int \<times> int \<times> int \<Rightarrow> bool" where
  "line_wins brd l \<longleftrightarrow> holds_line brd PX l \<or> holds_line brd PO l"

text \<open>
  The values of the TypeScript type \<^verbatim>\<open>Board\<close>: nine elements, each \<^verbatim>\<open>null\<close> or a marker,
  and no other property.
\<close>

definition well_typed :: "board \<Rightarrow> bool" where
  "well_typed brd \<longleftrightarrow>
     length (cells brd) = 9 \<and> list_all (\<lambda>c. c \<noteq> Undefined) (cells brd)
     \<and> extra brd = Map.empty"

text \<open>A board on which X holds the top row.\<close>

definition won_board :: board where
  "won_board =
     \<lparr>cells = [Mark PX, Mark PX, Mark PX, Mark PO, Mark PO, Null, Null, Null, Null],
      extra = Map.empty\<rparr>"

text \<open>
  The highlighted line agrees with the winner: a line of \<open>WINNING_LINES\<close> whose cells hold
  the winner's marker when there is a winner, no line otherwise.
\<close>

definition highlight_ok :: "game \<Rightarrow> bool" where
  "highlight_ok s \<longleftrightarrow>
     (if truthy (winner s) then
        (\<exists>a b c. winningCells s = [a, b, c] \<and> (a, b, c) \<in> set WINNING_LINES
           \<and> at_index (board s) a = winner s \<and> at_index (board s) b = winner s
           \<and> at_index (board s) c = winner s)
      else winningCells s = [])"

section \<open>Properties\<close>

subsection \<open>The line scan\<close>

lemma truthy_iff: "truthy c \<longleftrightarrow> (\<exists>p. c = Mark p)"
  by (cases c) auto

lemma line_wins_iff:
  "line_wins brd (a, b, c) \<longleftrightarrow>
     truthy (at_index brd a) \<and> at_index brd a = at_index brd b \<and> at_index brd a = at_index brd c"
proof (cases "at_index brd a")
  case (Mark p)
  then show ?thesis
    by (cases p) (auto simp: line_wins_def holds_line_def)
qed (auto simp: line_wins_def holds_line_def)

lemma holds_line_wins: "holds_line brd p l \<Longrightarrow> line_wins brd l"
  by (cases p) (auto simp: line_wins_def)

lemma line_wins_holds:
  "line_wins brd (a, b, c) \<Longrightarrow> at_index brd a = Mark p \<Longrightarrow> holds_line brd p (a, b, c)"
  by (auto simp: line_wins_def holds_line_def)

lemma scan_lines_Cons:
  "scan_lines brd ((a, b, c) # ls) =
     (if line_wins brd (a, b, c) then at_index brd a else scan_lines brd ls)"
  by (simp add: line_wins_iff)

lemma scan_lines_Mark_iff:
  "scan_lines brd ls = Mark p \<longleftrightarrow>
     (\<exists>n<length ls. holds_line brd p (ls ! n) \<and> (\<forall>m<n. \<not> line_wins brd (ls ! m)))"
proof (induction ls)
  case Nil
  show ?case by simp
next
  case (Cons l ls)
  obtain a b c where l: "l = (a, b, c)" by (cases l)
  show ?case
  proof (cases "line_wins brd (a, b, c)")
    case True
    have "at_index brd a = Mark p \<longleftrightarrow> holds_line brd p (a, b, c)"
      using True line_wins_holds by (auto simp: holds_line_def)
    then show ?thesis
      unfolding l scan_lines_Cons using True
      by (simp add: Ex_less_Suc2 All_less_Suc2)
  next
    case False
    then have "\<not> holds_line brd p (a, b, c)"
      using holds_line_wins by blast
    then show ?thesis
      unfolding l scan_lines_Cons using False Cons.IH
      by (simp add: Ex_less_Suc2 All_less_Suc2)
  qed
qed

lemma scan_lines_Null_iff:
  "scan_lines brd ls = Null \<longleftrightarrow> (\<forall>l\<in>set ls. \<not> line_wins brd l)"
proof (induction ls)
  case Nil
  show ?case by simp
next
  case (Cons l ls)
  obtain a b c where l: "l = (a, b, c)" by (cases l)
  show ?case
    unfolding l scan_lines_Cons using Cons.IH
    by (auto simp: line_wins_iff)
qed

lemma scan_lines_defined: "scan_lines brd ls \<noteq> Undefined"
proof (induction ls)
  case Nil
  show ?case by simp
next
  case (Cons l ls)
  obtain a b c where l: "l = (a, b, c)" by (cases l)
  show ?case
    unfolding l scan_lines_Cons using Cons.IH
    by (auto simp: line_wins_iff)
qed

lemma truthy_scan_lines:
  "truthy (scan_lines brd ls) \<longleftrightarrow> (\<exists>l\<in>set ls. line_wins brd l)"
  using scan_lines_Null_iff [of brd ls] scan_lines_defined [of brd ls]
  by (cases "scan_lines brd ls") auto

text \<open>
  C1. For every board, \<open>calculateWinner\<close> scans the eight lines in the order rows 0-1-2,
  3-4-5, 6-7-8, columns 0-3-6, 1-4-7, 2-5-8, diagonals 0-4-8, 2-4-6: it returns the marker
  \<open>p\<close> exactly when some line is held by \<open>p\<close> and no line before it in that order wins,
  and it returns \<^verbatim>\<open>null\<close> exactly when no line wins.
\<close>

theorem calculateWinner_first_line:
  "WINNING_LINES =
     [(0, 1, 2), (3, 4, 5), (6, 7, 8), (0, 3, 6), (1, 4, 7), (2, 5, 8), (0, 4, 8), (2, 4, 6)]
   \<and> (calculateWinner brd = Mark p \<longleftrightarrow>
        (\<exists>n<length WINNING_LINES. holds_line brd p (WINNING_LINES ! n)
            \<and> (\<forall>m<n. \<not> line_wins brd (WINNING_LINES ! m))))
   \<and> (calculateWinner brd = Null \<longleftrightarrow> (\<forall>l\<in>set WINNING_LINES. \<not> line_wins brd l))
   \<and> calculateWinner brd \<noteq> Undefined"
  unfolding calculateWinner_def
  using scan_lines_Mark_iff [of brd WINNING_LINES p] scan_lines_Null_iff [of brd WINNING_LINES]
    scan_lines_defined [of brd WINNING_LINES]
  by (simp add: WINNING_LINES_def)

theorem calculateWinner_first_line_witness:
  "calculateWinner won_board = Mark PX \<and> calculateWinner EMPTY_BOARD = Null"
proof -
  have "holds_line won_board PX (WINNING_LINES ! 0)
      \<and> (\<forall>m<0. \<not> line_wins won_board (WINNING_LINES ! m))"
    by (simp add: holds_line_def won_board_def WINNING_LINES_def at_index_def)
  then have "\<exists>n<length WINNING_LINES. holds_line won_board PX (WINNING_LINES ! n)
      \<and> (\<forall>m<n. \<not> line_wins won_board (WINNING_LINES ! m))"
    by (intro exI [of _ 0]) (simp add: WINNING_LINES_def)
  moreover have "\<forall>l\<in>set WINNING_LINES. \<not> line_wins EMPTY_BOARD l"
    by (simp add: WINNING_LINES_def line_wins_def holds_line_def EMPTY_BOARD_def at_index_def)
  ultimately show ?thesis
    using calculateWinner_first_line [of won_board PX] calculateWinner_first_line [of EMPTY_BOARD PX]
    by blast
qed

subsection \<open>One press\<close>

lemma handlePress_skip:
  "gameOver s \<or> truthy (at_index (board s) index) \<Longrightarrow> handlePress s index = s"
  by (simp add: handlePress_def)

lemma handlePress_board:
  "\<not> gameOver s \<Longrightarrow> \<not> truthy (at_index (board s) index) \<Longrightarrow>
     board (handlePress s index) = assign (spread (board s)) index (nextPlayer s)"
  by (simp add: handlePress_def nextPlayer_def Let_def)

lemma handlePress_isXNext:
  "\<not> gameOver s \<Longrightarrow> \<not> truthy (at_index (board s) index) \<Longrightarrow>
     isXNext (handlePress s index) = (\<not> isXNext s)"
  by (simp add: handlePress_def Let_def)

lemma assign_in_range:
  assumes "length (cells brd) = 9" "0 \<le> i" "i \<le> 8"
  shows "assign (spread brd) i p = \<lparr>cells = (cells brd)[nat i := Mark p], extra = Map.empty\<rparr>"
proof -
  have "nat i < 9" using assms by arith
  then show ?thesis
    using assms by (simp add: assign_def spread_def is_array_index_def)
qed

lemma at_index_in_range:
  "length (cells brd) = 9 \<Longrightarrow> 0 \<le> j \<Longrightarrow> j \<le> 8 \<Longrightarrow> at_index brd j = cells brd ! nat j"
  by (simp add: at_index_def)

lemma at_index_assign:
  assumes "length (cells brd) = 9" "0 \<le> i" "i \<le> 8" "0 \<le> j" "j \<le> 8"
  shows "at_index (assign (spread brd) i p) j = (if j = i then Mark p else at_index brd j)"
proof -
  have "nat j < 9" "nat i < 9" "nat j = nat i \<longleftrightarrow> j = i"
    using assms by arith+
  then show ?thesis
    using assms by (simp add: assign_in_range at_index_def)
qed

lemma well_typed_assign:
  assumes "well_typed brd" "0 \<le> i" "i \<le> 8"
  shows "well_typed (assign (spread brd) i p)"
proof -
  have len: "length (cells brd) = 9" and def: "\<forall>c\<in>set (cells brd). c \<noteq> Undefined"
    using assms(1) by (simp_all add: well_typed_def list_all_iff)
  have "\<forall>c\<in>set ((cells brd)[nat i := Mark p]). c \<noteq> Undefined"
    using def set_update_subset_insert [of "cells brd" "nat i" "Mark p"] by auto
  then show ?thesis
    using len assms(2,3) by (simp add: assign_in_range well_typed_def list_all_iff)
qed

lemma well_typed_handlePress:
  assumes "well_typed (board s)" "0 \<le> i" "i \<le> 8"
  shows "well_typed (board (handlePress s i))"
proof (cases "gameOver s \<or> truthy (at_index (board s) i)")
  case True
  then show ?thesis using assms(1) by (simp add: handlePress_skip)
next
  case False
  then show ?thesis
    using assms by (simp add: handlePress_board well_typed_assign)
qed

lemma well_typed_EMPTY_BOARD: "well_typed EMPTY_BOARD"
  by (simp add: well_typed_def EMPTY_BOARD_def)

lemma reachable_well_typed: "reachable s \<Longrightarrow> well_typed (board s)"
proof (induction rule: reachable.induct)
  case reach_initial
  show ?case by (simp add: initial_def well_typed_EMPTY_BOARD)
next
  case (reach_press s i)
  then show ?case by (simp add: well_typed_handlePress)
next
  case (reach_reset s)
  show ?case by (simp add: resetGame_def well_typed_EMPTY_BOARD)
qed

lemma presses_snoc: "presses (ks @ [k]) = handlePress (presses ks) k"
  by (simp add: presses_def)

lemma reachable_presses: "list_all (\<lambda>k. 0 \<le> k \<and> k \<le> 8) ks \<Longrightarrow> reachable (presses ks)"
proof (induction ks rule: rev_induct)
  case Nil
  show ?case by (simp add: presses_def reach_initial)
next
  case (snoc k ks)
  then show ?case by (simp add: presses_snoc reach_press)
qed

text \<open>
  C2. For every state and every index from 0 to 8, if the state is terminal (a winner is
  present or it is a draw) or the cell at the index is occupied, \<open>handlePress\<close> returns its
  input state: board, turn and highlighted line are all unchanged.
\<close>

theorem handlePress_noop:
  assumes "0 \<le> index" "index \<le> 8"
    and "truthy (winner s) \<or> isDraw s \<or> truthy (at_index (board s) index)"
  shows "handlePress s index = s"
  using assms(3) by (simp add: handlePress_def gameOver_def)

theorem handlePress_noop_witness:
  "truthy (at_index (board (presses [4])) 4)
   \<and> handlePress (presses [4]) 4 = presses [4]
   \<and> truthy (winner (presses [0, 3, 1, 4, 2]))
   \<and> handlePress (presses [0, 3, 1, 4, 2]) 5 = presses [0, 3, 1, 4, 2]
   \<and> isDraw (presses [0, 1, 2, 4, 3, 5, 7, 6, 8])
   \<and> handlePress (presses [0, 1, 2, 4, 3, 5, 7, 6, 8]) 0 = presses [0, 1, 2, 4, 3, 5, 7, 6, 8]"
proof -
  have a: "truthy (at_index (board (presses [4])) 4)" by code_simp
  have b: "truthy (winner (presses [0, 3, 1, 4, 2]))" by code_simp
  have c: "isDraw (presses [0, 1, 2, 4, 3, 5, 7, 6, 8])" by code_simp
  show ?thesis
    using a b c handlePress_noop [of 4 "presses [4]"]
      handlePress_noop [of 5 "presses [0, 3, 1, 4, 2]"]
      handlePress_noop [of 0 "presses [0, 1, 2, 4, 3, 5, 7, 6, 8]"]
    by simp
qed

text \<open>
  C3. For every non-terminal state and every empty cell index from 0 to 8, the board
  after \<open>handlePress\<close> holds the marker of \<open>nextPlayer\<close> at the index and is the input
  board at each of the other eight cells; it still has nine cells.
\<close>

theorem handlePress_frame:
  assumes "well_typed (board s)" "\<not> gameOver s"
    and "0 \<le> index" "index \<le> 8" "at_index (board s) index = Null"
  shows "at_index (board (handlePress s index)) index = Mark (nextPlayer s)
     \<and> (\<forall>j. 0 \<le> j \<and> j \<le> 8 \<and> j \<noteq> index \<longrightarrow>
           at_index (board (handlePress s index)) j = at_index (board s) j)
     \<and> cells (board (handlePress s index)) = (cells (board s))[nat index := Mark (nextPlayer s)]
     \<and> well_typed (board (handlePress s index))"
proof -
  have len: "length (cells (board s)) = 9"
    using assms(1) by (simp add: well_typed_def)
  have brd: "board (handlePress s index) = assign (spread (board s)) index (nextPlayer s)"
    using assms(2,5) by (simp add: handlePress_board)
  have "at_index (board (handlePress s index)) index = Mark (nextPlayer s)"
    unfolding brd using len assms(3,4) by (simp add: at_index_assign)
  moreover have "\<forall>j. 0 \<le> j \<and> j \<le> 8 \<and> j \<noteq> index \<longrightarrow>
           at_index (board (handlePress s index)) j = at_index (board s) j"
    unfolding brd using len assms(3,4) by (simp add: at_index_assign)
  moreover have "cells (board (handlePress s index)) = (cells (board s))[nat index := Mark (nextPlayer s)]"
    unfolding brd using len assms(3,4) by (simp add: assign_in_range)
  moreover have "well_typed (board (handlePress s index))"
    using assms(1,3,4) by (rule well_typed_handlePress)
  ultimately show ?thesis by blast
qed

theorem handlePress_frame_witness:
  "at_index (board (handlePress initial 4)) 4 = Mark PX
   \<and> at_index (board (handlePress initial 4)) 5 = Null
   \<and> cells (board (handlePress initial 4)) =
       [Null, Null, Null, Null, Mark PX, Null, Null, Null, Null]"
proof -
  have a: "well_typed (board initial)" by (simp add: initial_def well_typed_EMPTY_BOARD)
  have b: "\<not> gameOver initial" by code_simp
  have c: "at_index (board initial) 4 = Null" "at_index (board initial) 5 = Null"
    "nextPlayer initial = PX"
    "(cells (board initial))[nat 4 := Mark PX] = [Null, Null, Null, Null, Mark PX, Null, Null, Null, Null]"
    by code_simp+
  show ?thesis
    using handlePress_frame [OF a b _ _ c(1)] c by simp
qed

subsection \<open>Draw and reset\<close>

lemma calculateWinner_cases:
  "calculateWinner brd = Null \<or> (\<exists>p. calculateWinner brd = Mark p)"
  using scan_lines_defined [of brd WINNING_LINES]
  by (cases "calculateWinner brd") (auto simp: calculateWinner_def)

lemma truthy_winner_iff: "truthy (winner s) \<longleftrightarrow> (\<exists>l\<in>set WINNING_LINES. line_wins (board s) l)"
  by (simp add: winner_def calculateWinner_def truthy_scan_lines)

lemma winner_Null_iff: "winner s = Null \<longleftrightarrow> \<not> truthy (winner s)"
  using calculateWinner_cases [of "board s"] by (auto simp: winner_def)

lemma isBoardFull_iff:
  assumes "length (cells brd) = 9"
  shows "isBoardFull brd \<longleftrightarrow> (\<forall>i. 0 \<le> i \<and> i \<le> 8 \<longrightarrow> at_index brd i \<noteq> Null)"
proof
  assume full: "isBoardFull brd"
  show "\<forall>i. 0 \<le> i \<and> i \<le> 8 \<longrightarrow> at_index brd i \<noteq> Null"
  proof (intro allI impI)
    fix i :: int
    assume i: "0 \<le> i \<and> i \<le> 8"
    then have "nat i < length (cells brd)" using assms by arith
    then have "cells brd ! nat i \<noteq> Null"
      using full by (simp add: isBoardFull_def list_all_length)
    then show "at_index brd i \<noteq> Null"
      using i assms by (simp add: at_index_in_range)
  qed
next
  assume cellsfull: "\<forall>i. 0 \<le> i \<and> i \<le> 8 \<longrightarrow> at_index brd i \<noteq> Null"
  have "cells brd ! n \<noteq> Null" if "n < length (cells brd)" for n
  proof -
    have "0 \<le> int n \<and> int n \<le> 8" using that assms by arith
    then have "at_index brd (int n) \<noteq> Null" using cellsfull by blast
    then show ?thesis using that by (simp add: at_index_def)
  qed
  then show "isBoardFull brd"
    by (simp add: isBoardFull_def list_all_length)
qed

text \<open>
  C4. For every board, the state is a draw exactly when there is no winner and all nine
  cells are non-empty: a filled board on which no canonical line wins gives a draw and no
  winner, there is no draw when a winner is present or a cell is empty, and a winner and
  a draw never hold together.
\<close>

theorem isDraw_iff:
  assumes "well_typed (board s)"
  shows "(isDraw s \<longleftrightarrow>
            winner s = Null \<and> (\<forall>i. 0 \<le> i \<and> i \<le> 8 \<longrightarrow> at_index (board s) i \<noteq> Null))
     \<and> ((\<forall>i. 0 \<le> i \<and> i \<le> 8 \<longrightarrow> at_index (board s) i \<noteq> Null)
          \<and> (\<forall>l\<in>set WINNING_LINES. \<not> line_wins (board s) l)
          \<longrightarrow> isDraw s \<and> winner s = Null)
     \<and> (truthy (winner s) \<or> (\<exists>i. 0 \<le> i \<and> i \<le> 8 \<and> at_index (board s) i = Null)
          \<longrightarrow> \<not> isDraw s)
     \<and> \<not> (truthy (winner s) \<and> isDraw s)"
proof -
  have len: "length (cells (board s)) = 9"
    using assms by (simp add: well_typed_def)
  have draw: "isDraw s \<longleftrightarrow>
      winner s = Null \<and> (\<forall>i. 0 \<le> i \<and> i \<le> 8 \<longrightarrow> at_index (board s) i \<noteq> Null)"
    unfolding isDraw_def isBoardFull_iff [OF len] winner_Null_iff ..
  have none: "winner s = Null" if "\<forall>l\<in>set WINNING_LINES. \<not> line_wins (board s) l"
    using that by (simp add: winner_Null_iff truthy_winner_iff)
  have excl: "\<not> isDraw s" if "truthy (winner s)"
    using that by (simp add: isDraw_def)
  show ?thesis
    using draw none excl by blast
qed

theorem isDraw_iff_witness:
  "isDraw (presses [0, 1, 2, 4, 3, 5, 7, 6, 8])
   \<and> winner (presses [0, 1, 2, 4, 3, 5, 7, 6, 8]) = Null
   \<and> \<not> isDraw (presses [0, 3, 1, 4, 2]) \<and> \<not> isDraw initial"
proof -
  have r: "reachable (presses [0, 1, 2, 4, 3, 5, 7, 6, 8])" "reachable (presses [0, 3, 1, 4, 2])"
    by (simp_all add: reachable_presses)
  have full: "\<forall>i. 0 \<le> i \<and> i \<le> 8 \<longrightarrow>
      at_index (board (presses [0, 1, 2, 4, 3, 5, 7, 6, 8])) i \<noteq> Null"
  proof (intro allI impI)
    fix i :: int
    assume "0 \<le> i \<and> i \<le> 8"
    then have "i \<in> {0, 1, 2, 3, 4, 5, 6, 7, 8}" by auto
    moreover have "\<forall>i\<in>{0, 1, 2, 3, 4, 5, 6, 7, 8}.
        at_index (board (presses [0, 1, 2, 4, 3, 5, 7, 6, 8])) i \<noteq> Null"
      by code_simp
    ultimately show "at_index (board (presses [0, 1, 2, 4, 3, 5, 7, 6, 8])) i \<noteq> Null"
      by blast
  qed
  have nowin: "\<forall>l\<in>set WINNING_LINES. \<not> line_wins (board (presses [0, 1, 2, 4, 3, 5, 7, 6, 8])) l"
    by code_simp
  have won: "truthy (winner (presses [0, 3, 1, 4, 2]))" by code_simp
  have empty: "0 \<le> (0::int) \<and> (0::int) \<le> 8 \<and> at_index (board initial) 0 = Null" by code_simp
  show ?thesis
    using isDraw_iff [OF reachable_well_typed [OF r(1)]] full nowin
      isDraw_iff [OF reachable_well_typed [OF r(2)]] won
      isDraw_iff [OF reachable_well_typed [OF reach_initial]] empty
    by blast
qed

text \<open>
  C5. For every prior state, \<open>resetGame\<close> returns the initial state: nine empty cells,
  X to move, no winner, no draw, no highlighted line.
\<close>

theorem resetGame_initial:
  "resetGame s = initial
   \<and> cells (board (resetGame s)) = [Null, Null, Null, Null, Null, Null, Null, Null, Null]
   \<and> nextPlayer (resetGame s) = PX
   \<and> winner (resetGame s) = Null
   \<and> \<not> isDraw (resetGame s)
   \<and> winningCells (resetGame s) = []"
proof -
  have eq: "resetGame s = initial"
    by (simp add: resetGame_def initial_def)
  have "cells (board initial) = [Null, Null, Null, Null, Null, Null, Null, Null, Null]"
    "nextPlayer initial = PX" "winner initial = Null" "\<not> isDraw initial"
    "winningCells initial = []"
    by code_simp+
  then show ?thesis
    unfolding eq by simp
qed

subsection \<open>The highlighted line\<close>

lemma find_Some_mem:
  assumes "find P ls = Some l"
  shows "l \<in> set ls" "P l"
  using assms by (simp_all add: find_Some_iff) auto

lemma find_Some_ex:
  assumes "l \<in> set ls" "P l"
  shows "\<exists>l'. find P ls = Some l'"
proof -
  have "find P ls \<noteq> None"
    using assms by (simp only: find_None_iff) blast
  then show ?thesis by blast
qed

lemma calculateWinner_line:
  assumes "truthy (calculateWinner brd)"
  shows "\<exists>l\<in>set WINNING_LINES. case l of (a, b, c) \<Rightarrow>
      at_index brd a = calculateWinner brd \<and> at_index brd b = calculateWinner brd
      \<and> at_index brd c = calculateWinner brd"
proof -
  obtain p where p: "calculateWinner brd = Mark p"
    using assms truthy_iff [of "calculateWinner brd"] by blast
  then have "scan_lines brd WINNING_LINES = Mark p"
    by (simp add: calculateWinner_def)
  then have "\<exists>n<length WINNING_LINES. holds_line brd p (WINNING_LINES ! n)
      \<and> (\<forall>m<n. \<not> line_wins brd (WINNING_LINES ! m))"
    by (simp only: scan_lines_Mark_iff)
  then obtain n where n: "n < length WINNING_LINES" "holds_line brd p (WINNING_LINES ! n)"
    by blast
  have mem: "WINNING_LINES ! n \<in> set WINNING_LINES"
    using n(1) by (rule nth_mem)
  have cs: "case WINNING_LINES ! n of (a, b, c) \<Rightarrow>
      at_index brd a = Mark p \<and> at_index brd b = Mark p \<and> at_index brd c = Mark p"
    using n(2) by (simp only: holds_line_def)
  show ?thesis
    unfolding p by (rule bexI [where x = "WINNING_LINES ! n"], rule cs, rule mem)
qed

lemma find_winning_line:
  assumes "truthy (calculateWinner brd)"
  shows "\<exists>a b c.
      find (\<lambda>(a, b, c). at_index brd a = calculateWinner brd
              \<and> at_index brd b = calculateWinner brd
              \<and> at_index brd c = calculateWinner brd) WINNING_LINES = Some (a, b, c)
      \<and> (a, b, c) \<in> set WINNING_LINES
      \<and> at_index brd a = calculateWinner brd \<and> at_index brd b = calculateWinner brd
      \<and> at_index brd c = calculateWinner brd"
proof -
  let ?P = "\<lambda>(a, b, c). at_index brd a = calculateWinner brd
              \<and> at_index brd b = calculateWinner brd
              \<and> at_index brd c = calculateWinner brd"
  from calculateWinner_line [OF assms] obtain l0 where "l0 \<in> set WINNING_LINES" "?P l0"
    by (rule bexE)
  then have "\<exists>l. find ?P WINNING_LINES = Some l"
    by (rule find_Some_ex)
  then obtain l where l: "find ?P WINNING_LINES = Some l" ..
  have mem: "l \<in> set WINNING_LINES" and holds: "?P l"
    using l by (rule find_Some_mem)+
  obtain a b c where abc: "l = (a, b, c)" by (cases l)
  show ?thesis
    using l mem holds unfolding abc by simp
qed

lemma highlight_ok_handlePress:
  assumes "highlight_ok s"
  shows "highlight_ok (handlePress s i)"
proof (cases "gameOver s \<or> truthy (at_index (board s) i)")
  case True
  then show ?thesis using assms by (simp add: handlePress_skip)
next
  case False
  then have "\<not> truthy (winner s)" by (simp add: gameOver_def)
  then have old: "winningCells s = []"
    using assms by (simp add: highlight_ok_def)
  define nxt where "nxt = assign (spread (board s)) i (if isXNext s then PX else PO)"
  show ?thesis
  proof (cases "truthy (calculateWinner nxt)")
    case True
    from find_winning_line [OF True] obtain a b c where
      "find (\<lambda>(a, b, c). at_index nxt a = calculateWinner nxt
              \<and> at_index nxt b = calculateWinner nxt
              \<and> at_index nxt c = calculateWinner nxt) WINNING_LINES = Some (a, b, c)"
      "(a, b, c) \<in> set WINNING_LINES"
      "at_index nxt a = calculateWinner nxt" "at_index nxt b = calculateWinner nxt"
      "at_index nxt c = calculateWinner nxt"
      by blast
    then show ?thesis
      using False True
      by (simp add: highlight_ok_def handlePress_def winner_def Let_def nxt_def [symmetric])
  next
    case nowin: False
    then show ?thesis
      using False old
      by (simp add: highlight_ok_def handlePress_def winner_def Let_def nxt_def [symmetric])
  qed
qed

lemma highlight_ok_initial: "highlight_ok initial"
proof -
  have "\<not> truthy (winner initial)" "winningCells initial = []" by code_simp+
  then show ?thesis by (simp add: highlight_ok_def)
qed

lemma reachable_highlight_ok: "reachable s \<Longrightarrow> highlight_ok s"
proof (induction rule: reachable.induct)
  case reach_initial
  show ?case by (rule highlight_ok_initial)
next
  case (reach_press s i)
  then show ?case by (simp add: highlight_ok_handlePress)
next
  case (reach_reset s)
  have "resetGame s = initial" by (simp add: resetGame_def initial_def)
  then show ?case by (simp add: highlight_ok_initial)
qed

text \<open>
  C6. In every state reachable from the initial state by presses and resets, if a winner
  is present then \<open>winningCells\<close> names three indices that form one of the eight canonical
  lines and whose cells all hold the winner's marker.
\<close>

theorem winner_has_winningCells:
  assumes "reachable s" "truthy (winner s)"
  shows "\<exists>a b c. winningCells s = [a, b, c] \<and> (a, b, c) \<in> set WINNING_LINES
           \<and> at_index (board s) a = winner s \<and> at_index (board s) b = winner s
           \<and> at_index (board s) c = winner s"
  using reachable_highlight_ok [OF assms(1)] assms(2)
  by (simp add: highlight_ok_def)

theorem winner_has_winningCells_witness:
  "reachable (presses [0, 1, 3, 4, 6])
   \<and> winner (presses [0, 1, 3, 4, 6]) = Mark PX
   \<and> winningCells (presses [0, 1, 3, 4, 6]) = [0, 3, 6]
   \<and> (\<exists>a b c. winningCells (presses [0, 1, 3, 4, 6]) = [a, b, c]
         \<and> (a, b, c) \<in> set WINNING_LINES
         \<and> at_index (board (presses [0, 1, 3, 4, 6])) a = Mark PX
         \<and> at_index (board (presses [0, 1, 3, 4, 6])) b = Mark PX
         \<and> at_index (board (presses [0, 1, 3, 4, 6])) c = Mark PX)"
proof -
  have r: "reachable (presses [0, 1, 3, 4, 6])"
    by (simp add: reachable_presses)
  have w: "winner (presses [0, 1, 3, 4, 6]) = Mark PX"
    "winningCells (presses [0, 1, 3, 4, 6]) = [0, 3, 6]"
    by code_simp+
  have t: "truthy (winner (presses [0, 1, 3, 4, 6]))"
    by (simp add: w)
  show ?thesis
    using winner_has_winningCells [OF r t] r w by simp
qed

text \<open>
  C10. In every state reachable from the initial state by presses and resets, if no winner
  is present then \<open>winningCells\<close> is the empty list.
\<close>

theorem no_winner_no_winningCells:
  assumes "reachable s" "winner s = Null"
  shows "winningCells s = []"
  using reachable_highlight_ok [OF assms(1)] assms(2)
  by (simp add: highlight_ok_def)

theorem no_winner_no_winningCells_witness:
  "reachable (presses [0, 1, 3, 4]) \<and> winner (presses [0, 1, 3, 4]) = Null
   \<and> winningCells (presses [0, 1, 3, 4]) = []"
proof -
  have r: "reachable (presses [0, 1, 3, 4])"
    by (simp add: reachable_presses)
  have w: "winner (presses [0, 1, 3, 4]) = Null"
    by code_simp
  show ?thesis
    using no_winner_no_winningCells [OF r w] r w by simp
qed

subsection \<open>The turn\<close>

text \<open>
  C7, as stated, fails: the press that wins (0, 1, 3, 4, then 6) and the press that fills
  the board to a draw both flip the turn.
\<close>

theorem nextPlayer_kept_counterexample:
  "\<not> gameOver (presses [0, 1, 3, 4])
   \<and> at_index (board (presses [0, 1, 3, 4])) 6 = Null
   \<and> winner (handlePress (presses [0, 1, 3, 4]) 6) = Mark PX
   \<and> nextPlayer (presses [0, 1, 3, 4]) = PX
   \<and> nextPlayer (handlePress (presses [0, 1, 3, 4]) 6) = PO
   \<and> \<not> gameOver (presses [0, 1, 2, 4, 3, 5, 7, 6])
   \<and> at_index (board (presses [0, 1, 2, 4, 3, 5, 7, 6])) 8 = Null
   \<and> isDraw (handlePress (presses [0, 1, 2, 4, 3, 5, 7, 6]) 8)
   \<and> nextPlayer (presses [0, 1, 2, 4, 3, 5, 7, 6]) = PX
   \<and> nextPlayer (handlePress (presses [0, 1, 2, 4, 3, 5, 7, 6]) 8) = PO"
  by code_simp

text \<open>
  C7, amended. For every non-terminal state and legal move (an empty cell from 0 to 8),
  \<open>nextPlayer\<close> flips to the other marker, whether the move produces a winner, a draw or
  neither.
\<close>

theorem nextPlayer_flips:
  assumes "\<not> gameOver s" "0 \<le> index" "index \<le> 8" "at_index (board s) index = Null"
  shows "isXNext (handlePress s index) = (\<not> isXNext s)
     \<and> nextPlayer (handlePress s index) = (if nextPlayer s = PX then PO else PX)"
  using assms(1,4) by (simp add: handlePress_isXNext nextPlayer_def)

theorem nextPlayer_flips_witness:
  "winner (handlePress (presses [0, 1, 3, 4]) 6) = Mark PX
   \<and> nextPlayer (presses [0, 1, 3, 4]) = PX
   \<and> nextPlayer (handlePress (presses [0, 1, 3, 4]) 6) = PO"
proof -
  have a: "\<not> gameOver (presses [0, 1, 3, 4])" by code_simp
  have b: "at_index (board (presses [0, 1, 3, 4])) 6 = Null" by code_simp
  have c: "nextPlayer (presses [0, 1, 3, 4]) = PX"
    "winner (handlePress (presses [0, 1, 3, 4]) 6) = Mark PX" by code_simp+
  show ?thesis
    using nextPlayer_flips [OF a _ _ b] c by simp
qed

subsection \<open>Indices outside the board\<close>

lemma at_index_outside:
  assumes "well_typed brd" "i < 0 \<or> 8 < i"
  shows "at_index brd i = Undefined"
  using assms by (auto simp: well_typed_def at_index_def)

lemma handlePress_changes:
  assumes "\<not> gameOver s" "\<not> truthy (at_index (board s) i)"
  shows "handlePress s i \<noteq> s"
proof
  assume "handlePress s i = s"
  then have "isXNext (handlePress s i) = isXNext s" by simp
  then show False
    using assms by (simp add: handlePress_isXNext)
qed

lemma assign_beyond:
  assumes "length (cells brd) = 9" "8 < i" "i < 2 ^ 32 - 1"
  shows "length (cells (assign (spread brd) i p)) = nat i + 1"
proof -
  have "\<not> nat i < 9" "9 \<le> nat i" using assms(2) by arith+
  then show ?thesis
    using assms by (simp add: assign_def spread_def is_array_index_def)
qed

text \<open>
  C9, as stated, fails: pressed at index 9, the initial state changes and its board has
  ten cells.
\<close>

theorem out_of_range_noop_counterexample:
  "\<not> (0 \<le> (9::int) \<and> (9::int) \<le> 8)
   \<and> handlePress initial 9 \<noteq> initial
   \<and> length (cells (board (handlePress initial 9))) = 10"
proof -
  have a: "length (cells (board (handlePress initial 9))) = 10" by code_simp
  have b: "length (cells (board initial)) = 9" by code_simp
  have "handlePress initial 9 \<noteq> initial"
  proof
    assume "handlePress initial 9 = initial"
    then show False using a b by simp
  qed
  then show ?thesis using a by simp
qed

text \<open>
  C9, amended. For every terminal state and every integer index, \<open>handlePress\<close> returns the
  state unchanged. The board has exactly nine cells in every state reached by resets and
  presses at indices from 0 to 8. In a reachable state that is not terminal, a press at an
  index outside 0..8 is not refused: the turn flips, and for an index from 9 up to
  \<open>2^32 - 2\<close> the board grows to \<open>index + 1\<close> cells.
\<close>

theorem out_of_range_press:
  "(gameOver s \<longrightarrow> handlePress s index = s)
   \<and> (reachable s \<longrightarrow> length (cells (board s)) = 9)
   \<and> (reachable s \<and> \<not> gameOver s \<and> (index < 0 \<or> 8 < index) \<longrightarrow>
         handlePress s index \<noteq> s \<and> isXNext (handlePress s index) = (\<not> isXNext s))
   \<and> (reachable s \<and> \<not> gameOver s \<and> 8 < index \<and> index < 2 ^ 32 - 1 \<longrightarrow>
         length (cells (board (handlePress s index))) = nat index + 1)"
proof -
  have len: "length (cells (board s)) = 9" if "reachable s"
    using reachable_well_typed [OF that] by (simp add: well_typed_def)
  have out: "\<not> truthy (at_index (board s) index)" if "reachable s" "index < 0 \<or> 8 < index"
    using at_index_outside [OF reachable_well_typed [OF that(1)] that(2)] by simp
  have flip: "handlePress s index \<noteq> s \<and> isXNext (handlePress s index) = (\<not> isXNext s)"
    if "reachable s" "\<not> gameOver s" "index < 0 \<or> 8 < index"
    using handlePress_changes [OF that(2) out [OF that(1,3)]]
      handlePress_isXNext [OF that(2) out [OF that(1,3)]] by simp
  have grow: "length (cells (board (handlePress s index))) = nat index + 1"
    if "reachable s" "\<not> gameOver s" "8 < index" "index < 2 ^ 32 - 1"
  proof -
    have "\<not> truthy (at_index (board s) index)"
      using out [OF that(1)] that(3) by simp
    then show ?thesis
      using that(2) assign_beyond [OF len [OF that(1)] that(3,4)]
      by (simp add: handlePress_board)
  qed
  show ?thesis
    using len flip grow by (simp add: handlePress_skip)
qed

theorem out_of_range_press_witness:
  "handlePress (presses [0, 1, 3, 4, 6]) 9 = presses [0, 1, 3, 4, 6]
   \<and> length (cells (board (presses [0, 1, 3, 4, 6]))) = 9
   \<and> handlePress initial (- 1) \<noteq> initial
   \<and> length (cells (board (handlePress initial 11))) = 12"
proof -
  have a: "gameOver (presses [0, 1, 3, 4, 6])" by code_simp
  have b: "reachable (presses [0, 1, 3, 4, 6])" by (simp add: reachable_presses)
  have c: "\<not> gameOver initial" by code_simp
  show ?thesis
    using out_of_range_press [of "presses [0, 1, 3, 4, 6]" 9] a b
      out_of_range_press [of initial "- 1"] out_of_range_press [of initial 11] c reach_initial
    by simp
qed

subsection \<open>Lines completed by a press\<close>

lemma lines_in_range:
  assumes "(a, b, c) \<in> set WINNING_LINES"
  shows "0 \<le> a \<and> a \<le> 8 \<and> 0 \<le> b \<and> b \<le> 8 \<and> 0 \<le> c \<and> c \<le> 8"
  using assms by (auto simp: WINNING_LINES_def)

lemma no_line_before:
  assumes "\<not> gameOver s" "l \<in> set WINNING_LINES"
  shows "\<not> line_wins (board s) l"
  using assms by (auto simp: gameOver_def truthy_winner_iff)

lemma new_line_through_move:
  assumes "well_typed (board s)" "\<not> gameOver s"
    and "0 \<le> i" "i \<le> 8" "at_index (board s) i = Null"
    and "(a, b, c) \<in> set WINNING_LINES" "line_wins (board (handlePress s i)) (a, b, c)"
  shows "(i = a \<or> i = b \<or> i = c) \<and> holds_line (board (handlePress s i)) (nextPlayer s) (a, b, c)"
proof -
  have len: "length (cells (board s)) = 9"
    using assms(1) by (simp add: well_typed_def)
  have brd: "board (handlePress s i) = assign (spread (board s)) i (nextPlayer s)"
    using assms(2,5) by (simp add: handlePress_board)
  have rng: "0 \<le> a \<and> a \<le> 8 \<and> 0 \<le> b \<and> b \<le> 8 \<and> 0 \<le> c \<and> c \<le> 8"
    using assms(6) by (rule lines_in_range)
  have at: "at_index (board (handlePress s i)) j
      = (if j = i then Mark (nextPlayer s) else at_index (board s) j)"
    if "0 \<le> j" "j \<le> 8" for j
    unfolding brd using len assms(3,4) that by (rule at_index_assign)
  have ata: "at_index (board (handlePress s i)) a
      = (if a = i then Mark (nextPlayer s) else at_index (board s) a)"
    and atb: "at_index (board (handlePress s i)) b
      = (if b = i then Mark (nextPlayer s) else at_index (board s) b)"
    and atc: "at_index (board (handlePress s i)) c
      = (if c = i then Mark (nextPlayer s) else at_index (board s) c)"
    using rng by (simp_all add: at)
  have old: "\<not> line_wins (board s) (a, b, c)"
    using assms(2,6) by (rule no_line_before)
  obtain q where q: "at_index (board (handlePress s i)) a = Mark q"
    "at_index (board (handlePress s i)) b = Mark q"
    "at_index (board (handlePress s i)) c = Mark q"
    using assms(7) by (auto simp: line_wins_def holds_line_def)
  have through: "i = a \<or> i = b \<or> i = c"
  proof (rule ccontr)
    assume "\<not> (i = a \<or> i = b \<or> i = c)"
    then have "at_index (board s) a = Mark q" "at_index (board s) b = Mark q"
      "at_index (board s) c = Mark q"
      using q ata atb atc by simp_all
    then have "holds_line (board s) q (a, b, c)"
      by (simp add: holds_line_def)
    then show False
      using old holds_line_wins by blast
  qed
  then have "q = nextPlayer s"
    using q ata atb atc by auto
  then show ?thesis
    using through q by (simp add: holds_line_def)
qed

lemma winner_after_press:
  assumes "well_typed (board s)" "\<not> gameOver s"
    and "0 \<le> i" "i \<le> 8" "at_index (board s) i = Null"
    and "truthy (winner (handlePress s i))"
  shows "winner (handlePress s i) = Mark (nextPlayer s)"
proof -
  obtain q where q: "winner (handlePress s i) = Mark q"
    using assms(6) truthy_iff [of "winner (handlePress s i)"] by blast
  then have "scan_lines (board (handlePress s i)) WINNING_LINES = Mark q"
    by (simp add: winner_def calculateWinner_def)
  then have "\<exists>n<length WINNING_LINES.
      holds_line (board (handlePress s i)) q (WINNING_LINES ! n)
      \<and> (\<forall>m<n. \<not> line_wins (board (handlePress s i)) (WINNING_LINES ! m))"
    by (simp only: scan_lines_Mark_iff)
  then obtain n where n: "n < length WINNING_LINES"
    "holds_line (board (handlePress s i)) q (WINNING_LINES ! n)"
    by blast
  obtain a b c where abc: "WINNING_LINES ! n = (a, b, c)"
    by (cases "WINNING_LINES ! n")
  have mem: "(a, b, c) \<in> set WINNING_LINES"
    using nth_mem [OF n(1)] by (simp only: abc)
  have hq: "holds_line (board (handlePress s i)) q (a, b, c)"
    using n(2) by (simp only: abc)
  have "line_wins (board (handlePress s i)) (a, b, c)"
    using hq by (rule holds_line_wins)
  then have "holds_line (board (handlePress s i)) (nextPlayer s) (a, b, c)"
    using new_line_through_move [OF assms(1-5) mem] by simp
  then have "q = nextPlayer s"
    using hq by (simp add: holds_line_def)
  then show ?thesis using q by simp
qed

lemma handlePress_winningCells:
  assumes "\<not> gameOver s" "\<not> truthy (at_index (board s) i)"
    and "truthy (winner (handlePress s i))"
  shows "\<exists>a b c. winningCells (handlePress s i) = [a, b, c]
    \<and> find (\<lambda>(a, b, c). at_index (board (handlePress s i)) a = winner (handlePress s i)
              \<and> at_index (board (handlePress s i)) b = winner (handlePress s i)
              \<and> at_index (board (handlePress s i)) c = winner (handlePress s i))
         WINNING_LINES = Some (a, b, c)"
proof -
  define nxt where "nxt = assign (spread (board s)) i (if isXNext s then PX else PO)"
  have brd: "board (handlePress s i) = nxt"
    using assms(1,2) by (simp add: handlePress_def Let_def nxt_def)
  have win: "truthy (calculateWinner nxt)"
    using assms(3) by (simp add: winner_def brd)
  from find_winning_line [OF win] obtain a b c where
    f: "find (\<lambda>(a, b, c). at_index nxt a = calculateWinner nxt
              \<and> at_index nxt b = calculateWinner nxt
              \<and> at_index nxt c = calculateWinner nxt) WINNING_LINES = Some (a, b, c)"
    by blast
  have "winningCells (handlePress s i) = [a, b, c]"
    using assms(1,2) win f
    by (simp add: handlePress_def Let_def nxt_def [symmetric])
  then show ?thesis
    using f by (simp add: winner_def brd)
qed

lemma wins_iff_holds:
  assumes "well_typed (board s)" "\<not> gameOver s"
    and "0 \<le> i" "i \<le> 8" "at_index (board s) i = Null"
    and "l \<in> set WINNING_LINES"
  shows "line_wins (board (handlePress s i)) l
     \<longleftrightarrow> holds_line (board (handlePress s i)) (nextPlayer s) l"
proof -
  obtain a b c where l: "l = (a, b, c)" by (cases l)
  have mem: "(a, b, c) \<in> set WINNING_LINES"
    using assms(6) by (simp only: l)
  show ?thesis
    unfolding l
    using new_line_through_move [OF assms(1-5) mem] holds_line_wins by blast
qed

lemma first_line_highlighted:
  assumes "well_typed (board s)" "\<not> gameOver s"
    and "0 \<le> i" "i \<le> 8" "at_index (board s) i = Null"
    and "truthy (winner (handlePress s i))"
  shows "\<exists>n<length WINNING_LINES.
      (case WINNING_LINES ! n of (a, b, c) \<Rightarrow> winningCells (handlePress s i) = [a, b, c])
      \<and> line_wins (board (handlePress s i)) (WINNING_LINES ! n)
      \<and> (\<forall>m<n. \<not> line_wins (board (handlePress s i)) (WINNING_LINES ! m))"
proof -
  have w: "winner (handlePress s i) = Mark (nextPlayer s)"
    using assms by (rule winner_after_press)
  have free: "\<not> truthy (at_index (board s) i)"
    using assms(5) by simp
  have pred: "(\<lambda>(a, b, c). at_index (board (handlePress s i)) a = winner (handlePress s i)
              \<and> at_index (board (handlePress s i)) b = winner (handlePress s i)
              \<and> at_index (board (handlePress s i)) c = winner (handlePress s i))
      = holds_line (board (handlePress s i)) (nextPlayer s)"
    by (auto simp: fun_eq_iff holds_line_def w)
  from handlePress_winningCells [OF assms(2) free assms(6)] obtain a b c where
    wc: "winningCells (handlePress s i) = [a, b, c]"
    and f: "find (holds_line (board (handlePress s i)) (nextPlayer s)) WINNING_LINES
        = Some (a, b, c)"
    unfolding pred by blast
  from f obtain n where n: "n < length WINNING_LINES"
    "holds_line (board (handlePress s i)) (nextPlayer s) (WINNING_LINES ! n)"
    "(a, b, c) = WINNING_LINES ! n"
    "\<forall>m<n. \<not> holds_line (board (handlePress s i)) (nextPlayer s) (WINNING_LINES ! m)"
    unfolding find_Some_iff by blast
  have first: "\<not> line_wins (board (handlePress s i)) (WINNING_LINES ! m)" if "m < n" for m
  proof -
    have "m < length WINNING_LINES" using that n(1) by simp
    then have "WINNING_LINES ! m \<in> set WINNING_LINES" by (rule nth_mem)
    then show ?thesis
      using wins_iff_holds [OF assms(1-5)] n(4) that by simp
  qed
  have "case WINNING_LINES ! n of (a, b, c) \<Rightarrow> winningCells (handlePress s i) = [a, b, c]"
    using wc by (simp add: n(3) [symmetric])
  moreover have "line_wins (board (handlePress s i)) (WINNING_LINES ! n)"
    using n(2) by (rule holds_line_wins)
  ultimately show ?thesis
    using n(1) first by (intro exI [of _ n]) simp
qed

text \<open>
  C8, as stated, fails: after 1, 4, 2, 5, 3, 7, 6, 8 the press at 0 completes the row 0-1-2
  and the column 0-3-6 at once, and the scan order decides between them: the row is
  highlighted, the reversed order would meet the column first.
\<close>

theorem single_line_counterexample:
  "reachable (presses [1, 4, 2, 5, 3, 7, 6, 8])
   \<and> \<not> gameOver (presses [1, 4, 2, 5, 3, 7, 6, 8])
   \<and> at_index (board (presses [1, 4, 2, 5, 3, 7, 6, 8])) 0 = Null
   \<and> (0, 1, 2) \<in> set WINNING_LINES \<and> (0, 3, 6) \<in> set WINNING_LINES
   \<and> \<not> line_wins (board (presses [1, 4, 2, 5, 3, 7, 6, 8])) (0, 1, 2)
   \<and> \<not> line_wins (board (presses [1, 4, 2, 5, 3, 7, 6, 8])) (0, 3, 6)
   \<and> line_wins (board (handlePress (presses [1, 4, 2, 5, 3, 7, 6, 8]) 0)) (0, 1, 2)
   \<and> line_wins (board (handlePress (presses [1, 4, 2, 5, 3, 7, 6, 8]) 0)) (0, 3, 6)
   \<and> winningCells (handlePress (presses [1, 4, 2, 5, 3, 7, 6, 8]) 0) = [0, 1, 2]
   \<and> find (line_wins (board (handlePress (presses [1, 4, 2, 5, 3, 7, 6, 8]) 0)))
        (rev WINNING_LINES) = Some (0, 3, 6)"
proof -
  have r: "reachable (presses [1, 4, 2, 5, 3, 7, 6, 8])"
    by (simp add: reachable_presses)
  have "\<not> gameOver (presses [1, 4, 2, 5, 3, 7, 6, 8])
   \<and> at_index (board (presses [1, 4, 2, 5, 3, 7, 6, 8])) 0 = Null
   \<and> (0, 1, 2) \<in> set WINNING_LINES \<and> (0, 3, 6) \<in> set WINNING_LINES
   \<and> \<not> line_wins (board (presses [1, 4, 2, 5, 3, 7, 6, 8])) (0, 1, 2)
   \<and> \<not> line_wins (board (presses [1, 4, 2, 5, 3, 7, 6, 8])) (0, 3, 6)
   \<and> line_wins (board (handlePress (presses [1, 4, 2, 5, 3, 7, 6, 8]) 0)) (0, 1, 2)
   \<and> line_wins (board (handlePress (presses [1, 4, 2, 5, 3, 7, 6, 8]) 0)) (0, 3, 6)
   \<and> winningCells (handlePress (presses [1, 4, 2, 5, 3, 7, 6, 8]) 0) = [0, 1, 2]
   \<and> find (line_wins (board (handlePress (presses [1, 4, 2, 5, 3, 7, 6, 8]) 0)))
        (rev WINNING_LINES) = Some (0, 3, 6)"
    by code_simp
  then show ?thesis using r by simp
qed

text \<open>
  C8, amended. For every reachable non-terminal state and every legal move, every
  canonical line that is complete after the move was not complete before it, passes
  through the moved cell and holds the mover's marker, so the winner is the mover whatever
  the scan order; several lines can be completed by one move, and \<open>winningCells\<close> is then
  the first complete line in the scan order of \<open>WINNING_LINES\<close>.
\<close>

theorem completed_lines_through_move:
  assumes "reachable s" "\<not> gameOver s"
    and "0 \<le> index" "index \<le> 8" "at_index (board s) index = Null"
    and "(a, b, c) \<in> set WINNING_LINES"
    and "line_wins (board (handlePress s index)) (a, b, c)"
  shows "\<not> line_wins (board s) (a, b, c)
     \<and> (index = a \<or> index = b \<or> index = c)
     \<and> holds_line (board (handlePress s index)) (nextPlayer s) (a, b, c)
     \<and> winner (handlePress s index) = Mark (nextPlayer s)
     \<and> (\<exists>n<length WINNING_LINES.
          (case WINNING_LINES ! n of
             (a', b', c') \<Rightarrow> winningCells (handlePress s index) = [a', b', c'])
          \<and> line_wins (board (handlePress s index)) (WINNING_LINES ! n)
          \<and> (\<forall>m<n. \<not> line_wins (board (handlePress s index)) (WINNING_LINES ! m)))"
proof -
  have wt: "well_typed (board s)"
    using assms(1) by (rule reachable_well_typed)
  have old: "\<not> line_wins (board s) (a, b, c)"
    using assms(2,6) by (rule no_line_before)
  have thr: "(index = a \<or> index = b \<or> index = c)
      \<and> holds_line (board (handlePress s index)) (nextPlayer s) (a, b, c)"
    using wt assms(2-7) by (rule new_line_through_move)
  have won: "truthy (winner (handlePress s index))"
    unfolding truthy_winner_iff using assms(6,7) by (rule bexI [rotated])
  have w: "winner (handlePress s index) = Mark (nextPlayer s)"
    using wt assms(2-5) won by (rule winner_after_press)
  have fst: "\<exists>n<length WINNING_LINES.
          (case WINNING_LINES ! n of
             (a', b', c') \<Rightarrow> winningCells (handlePress s index) = [a', b', c'])
          \<and> line_wins (board (handlePress s index)) (WINNING_LINES ! n)
          \<and> (\<forall>m<n. \<not> line_wins (board (handlePress s index)) (WINNING_LINES ! m))"
    using wt assms(2-5) won by (rule first_line_highlighted)
  show ?thesis
    using old thr w fst by (intro conjI) simp_all
qed

theorem completed_lines_through_move_witness:
  "holds_line (board (handlePress (presses [1, 4, 2, 5, 3, 7, 6, 8]) 0)) PX (0, 3, 6)
   \<and> winner (handlePress (presses [1, 4, 2, 5, 3, 7, 6, 8]) 0) = Mark PX
   \<and> winningCells (handlePress (presses [1, 4, 2, 5, 3, 7, 6, 8]) 0) = [0, 1, 2]"
proof -
  have r: "reachable (presses [1, 4, 2, 5, 3, 7, 6, 8])"
    by (simp add: reachable_presses)
  have g: "\<not> gameOver (presses [1, 4, 2, 5, 3, 7, 6, 8])" by code_simp
  have e: "at_index (board (presses [1, 4, 2, 5, 3, 7, 6, 8])) 0 = Null" by code_simp
  have m: "(0, 3, 6) \<in> set WINNING_LINES" by code_simp
  have l: "line_wins (board (handlePress (presses [1, 4, 2, 5, 3, 7, 6, 8]) 0)) (0, 3, 6)"
    by code_simp
  have p: "nextPlayer (presses [1, 4, 2, 5, 3, 7, 6, 8]) = PX"
    "winningCells (handlePress (presses [1, 4, 2, 5, 3, 7, 6, 8]) 0) = [0, 1, 2]"
    by code_simp+
  show ?thesis
    using completed_lines_through_move [OF r g _ _ e m l] p by simp
qed

end
